theory Spec2Isabelle
  imports Main "HOL-Library.Word"
begin

unbundle bit_operations_syntax

section \<open>Machine types of the Go source\<close>

text \<open>
  The package \<^verbatim>\<open>pkg\<close> (file \<^verbatim>\<open>stream.go\<close>) works on bytes, on the fixed-width
  unsigned integers \<^verbatim>\<open>uint16\<close>, \<^verbatim>\<open>uint32\<close>, \<^verbatim>\<open>uint64\<close> and on Go's \<^verbatim>\<open>int\<close>.
  All of them are words; \<^verbatim>\<open>int\<close> is taken at its width on 64-bit targets and is read
  through \<open>sint\<close> wherever the source compares or tests the sign. A conversion between a
  signed and an unsigned type of the same width (\<^verbatim>\<open>uint64(count)\<close>, \<^verbatim>\<open>int16(b)\<close>,
  \<^verbatim>\<open>uint(n)\<close>) keeps the bits, so it is the identity on the word.

  Go's shifts take an unsigned count: \<^verbatim>\<open>x << n\<close> is 0 once \<^verbatim>\<open>n\<close> reaches the width,
  which is what \<open>push_bit\<close> does on a word, and \<^verbatim>\<open>x >> n\<close> on a signed operand is the
  arithmetic shift \<open>signed_drop_bit\<close>. A shift by a negative signed count panics at
  run time.
\<close>

type_synonym byte = "8 word"
type_synonym uint16 = "16 word"
type_synonym uint32 = "32 word"
type_synonym uint64 = "64 word"
type_synonym go_int = "64 word"

text \<open>The only error value the readers return is \<^verbatim>\<open>io.EOF\<close>.\<close>

datatype go_error = io_EOF

text \<open>
  Run-time panics: \<^verbatim>\<open>log.Panic("Maximum BitCount is 16")\<close> in \<^verbatim>\<open>ReadBits\<close>, an index
  out of range, and a shift by a negative count.
\<close>

datatype panic = MaxBitCount | IndexOutOfRange | NegativeShift

text \<open>\<^verbatim>\<open>len(s)\<close> of a slice, as a Go \<^verbatim>\<open>int\<close>.\<close>

definition len :: "'a list \<Rightarrow> go_int" where
  "len xs = of_nat (length xs)"

text \<open>
  A Go slice never has more than \<open>2^63 - 1\<close> elements, its length being an \<^verbatim>\<open>int\<close>.
  HOL lists have no such bound, so the bound is a predicate on the buffer.
\<close>

definition go_slice :: "'a list \<Rightarrow> bool" where
  "go_slice xs \<longleftrightarrow> length xs < 2 ^ 63"

section \<open>streamReader\<close>

record streamReader =
  data :: "byte list"
  position :: uint64

definition CreateStreamReader :: "byte list \<Rightarrow> streamReader" where
  "CreateStreamReader source = \<lparr>data = source, position = 0\<rparr>"

definition Position :: "streamReader \<Rightarrow> uint64" where
  "Position v = position v"

definition SetPosition :: "streamReader \<Rightarrow> uint64 \<Rightarrow> streamReader" where
  "SetPosition v newPosition = v\<lparr>position := newPosition\<rparr>"

definition Size :: "streamReader \<Rightarrow> uint64" where
  "Size v = len (data v)"

text \<open>
  A method that returns \<^verbatim>\<open>(result, err)\<close> and moves the cursor returns
  \<open>((result, err), v')\<close> here, \<^verbatim>\<open>nil\<close> being \<open>None\<close> for the error and \<open>[]\<close> for a
  slice.
\<close>

definition ReadByte :: "streamReader \<Rightarrow> (byte \<times> go_error option) \<times> streamReader" where
  "ReadByte v =
     (if Size v \<le> position v then ((0, Some io_EOF), v)
      else ((data v ! unat (position v), None), v\<lparr>position := position v + 1\<rparr>))"

text \<open>
  \<^verbatim>\<open>ReadBytes\<close>: the slice expression \<^verbatim>\<open>v.data[v.position : v.position+uint64(count)]\<close>
  is \<open>take\<close> after \<open>drop\<close>; lemma \<open>ReadBytes_slice_in_range\<close> below shows that its
  bounds are in range whenever the two guards let it be reached.
\<close>

definition ReadBytes :: "streamReader \<Rightarrow> go_int \<Rightarrow> (byte list \<times> go_error option) \<times> streamReader" where
  "ReadBytes v count =
     (if sint count \<le> 0 then (([], None), v)
      else
        let size = Size v in
        if size \<le> position v \<or> size < position v + count then (([], Some io_EOF), v)
        else ((take (unat count) (drop (unat (position v)) (data v)), None),
              v\<lparr>position := position v + count\<rparr>))"

definition ReadUInt16 :: "streamReader \<Rightarrow> (uint16 \<times> go_error option) \<times> streamReader" where
  "ReadUInt16 v =
     (case ReadBytes v 2 of
        ((b, err), v') \<Rightarrow>
          if err \<noteq> None then ((0, err), v')
          else ((ucast (b ! 0) OR push_bit 8 (ucast (b ! 1)), err), v'))"

definition ReadInt16 :: "streamReader \<Rightarrow> (uint16 \<times> go_error option) \<times> streamReader" where
  "ReadInt16 v = (case ReadUInt16 v of ((b, err), v') \<Rightarrow> ((b, err), v'))"

definition ReadUInt32 :: "streamReader \<Rightarrow> (uint32 \<times> go_error option) \<times> streamReader" where
  "ReadUInt32 v =
     (case ReadBytes v 4 of
        ((b, err), v') \<Rightarrow>
          if err \<noteq> None then ((0, err), v')
          else ((ucast (b ! 0) OR push_bit 8 (ucast (b ! 1)) OR push_bit 16 (ucast (b ! 2))
                 OR push_bit 24 (ucast (b ! 3)), err), v'))"

definition ReadInt32 :: "streamReader \<Rightarrow> (uint32 \<times> go_error option) \<times> streamReader" where
  "ReadInt32 v = (case ReadUInt32 v of ((b, err), v') \<Rightarrow> ((b, err), v'))"

definition ReadUInt64 :: "streamReader \<Rightarrow> (uint64 \<times> go_error option) \<times> streamReader" where
  "ReadUInt64 v =
     (case ReadBytes v 8 of
        ((b, err), v') \<Rightarrow>
          if err \<noteq> None then ((0, err), v')
          else ((ucast (b ! 0) OR push_bit 8 (ucast (b ! 1)) OR push_bit 16 (ucast (b ! 2))
                 OR push_bit 24 (ucast (b ! 3)) OR push_bit 32 (ucast (b ! 4))
                 OR push_bit 40 (ucast (b ! 5)) OR push_bit 48 (ucast (b ! 6))
                 OR push_bit 56 (ucast (b ! 7)), err), v'))"

definition ReadInt64 :: "streamReader \<Rightarrow> (uint64 \<times> go_error option) \<times> streamReader" where
  "ReadInt64 v = (case ReadUInt64 v of ((b, err), v') \<Rightarrow> ((b, err), v'))"

definition SkipBytes :: "streamReader \<Rightarrow> go_int \<Rightarrow> streamReader" where
  "SkipBytes v count = v\<lparr>position := position v + count\<rparr>"

definition EOF :: "streamReader \<Rightarrow> bool" where
  "EOF v \<longleftrightarrow> len (data v) \<le> position v"

text \<open>The number of bytes between the cursor and the end of the buffer.\<close>

definition remaining :: "streamReader \<Rightarrow> nat" where
  "remaining v = length (data v) - unat (position v)"

section \<open>streamWriter\<close>

text \<open>
  The \<^verbatim>\<open>bytes.Buffer\<close> behind the writer is the list of the bytes written so far
  (field \<open>wdata\<close>, the source's \<^verbatim>\<open>data\<close>); \<^verbatim>\<open>WriteByte\<close> appends one byte.
\<close>

record streamWriter =
  wdata :: "byte list"
  bitOffset :: go_int
  bitCache :: byte

definition CreateStreamWriter :: streamWriter where
  "CreateStreamWriter = \<lparr>wdata = [], bitOffset = 0, bitCache = 0\<rparr>"

definition GetBytes :: "streamWriter \<Rightarrow> byte list" where
  "GetBytes v = wdata v"

definition WriteByte :: "streamWriter \<Rightarrow> byte \<Rightarrow> streamWriter" where
  "WriteByte v c = v\<lparr>wdata := wdata v @ [c]\<rparr>"

fun PushBytes :: "streamWriter \<Rightarrow> byte list \<Rightarrow> streamWriter" where
  "PushBytes v [] = v"
| "PushBytes v (i # b) = PushBytes (WriteByte v i) b"

text \<open>
  \<^verbatim>\<open>PushBit\<close>: in \<^verbatim>\<open>v.bitCache |= 1 << v.bitOffset\<close> the constant has the type of the
  cache, a byte, and the count is a signed \<^verbatim>\<open>int\<close>: the shift panics when the count is
  negative and is 0 when it is 8 or more. It is only evaluated when \<^verbatim>\<open>b\<close> holds.
\<close>

definition PushBit :: "streamWriter \<Rightarrow> bool \<Rightarrow> panic + streamWriter" where
  "PushBit v b =
     (if b \<and> sint (bitOffset v) < 0 then Inl NegativeShift
      else
        let v1 = (if b then v\<lparr>bitCache := bitCache v OR push_bit (unat (bitOffset v)) 1\<rparr> else v);
            v2 = v1\<lparr>bitOffset := bitOffset v1 + 1\<rparr>
        in if bitOffset v2 \<noteq> 8 then Inr v2
           else Inr ((PushBytes v2 [bitCache v2])\<lparr>bitCache := 0, bitOffset := 0\<rparr>))"

text \<open>
  The three bounded bit pushes run the same loop, \<^verbatim>\<open>for i := 0; i < bits; i++\<close>, over a
  value of their own width: push the lowest bit, shift the value right by one. The loop
  runs \<open>nat (sint bits)\<close> times (not at all when \<^verbatim>\<open>bits\<close> is zero or negative). When
  \<^verbatim>\<open>bits\<close> exceeds the width, the source prints a line through the process logger and goes
  on; the logger is no part of the writer, so the lines printed are a function of their
  own (\<open>PushBits_log\<close>, \<open>PushBits16_log\<close>, \<open>PushBits32_log\<close>) and the writer after the
  call does not depend on that branch.
\<close>

definition PushBits_log :: "go_int \<Rightarrow> string list" where
  "PushBits_log bits =
     (if 8 < sint bits then [''input bits number must be less (or equal) than 8''] else [])"

definition PushBits16_log :: "go_int \<Rightarrow> string list" where
  "PushBits16_log bits =
     (if 16 < sint bits then [''input bits number must be less (or equal) than 16''] else [])"

definition PushBits32_log :: "go_int \<Rightarrow> string list" where
  "PushBits32_log bits =
     (if 32 < sint bits then [''input bits number must be less (or equal) than 32''] else [])"

primrec PushBits_loop :: "streamWriter \<Rightarrow> 'a::len word \<Rightarrow> nat \<Rightarrow> panic + streamWriter" where
  "PushBits_loop v val 0 = Inr v"
| "PushBits_loop v val (Suc n) =
     (case PushBit v (val AND 1 = 1) of
        Inl e \<Rightarrow> Inl e
      | Inr v' \<Rightarrow> PushBits_loop v' (drop_bit 1 val) n)"

definition PushBits :: "streamWriter \<Rightarrow> byte \<Rightarrow> go_int \<Rightarrow> panic + streamWriter" where
  "PushBits v b bits = PushBits_loop v b (nat (sint bits))"

definition PushBits16 :: "streamWriter \<Rightarrow> uint16 \<Rightarrow> go_int \<Rightarrow> panic + streamWriter" where
  "PushBits16 v b bits = PushBits_loop v b (nat (sint bits))"

definition PushBits32 :: "streamWriter \<Rightarrow> uint32 \<Rightarrow> go_int \<Rightarrow> panic + streamWriter" where
  "PushBits32 v b bits = PushBits_loop v b (nat (sint bits))"

definition PushUint16 :: "streamWriter \<Rightarrow> uint16 \<Rightarrow> streamWriter" where
  "PushUint16 v val = WriteByte (WriteByte v (ucast val)) (ucast (drop_bit 8 val))"

definition PushInt16 :: "streamWriter \<Rightarrow> uint16 \<Rightarrow> streamWriter" where
  "PushInt16 v val = PushUint16 v val"

definition PushUint32 :: "streamWriter \<Rightarrow> uint32 \<Rightarrow> streamWriter" where
  "PushUint32 v val =
     WriteByte (WriteByte (WriteByte (WriteByte v (ucast val)) (ucast (drop_bit 8 val)))
       (ucast (drop_bit 16 val))) (ucast (drop_bit 24 val))"

definition PushInt32 :: "streamWriter \<Rightarrow> uint32 \<Rightarrow> streamWriter" where
  "PushInt32 v val = PushUint32 v val"

definition PushUint64 :: "streamWriter \<Rightarrow> uint64 \<Rightarrow> streamWriter" where
  "PushUint64 v val =
     WriteByte (WriteByte (WriteByte (WriteByte (WriteByte (WriteByte (WriteByte (WriteByte v
       (ucast val)) (ucast (drop_bit 8 val))) (ucast (drop_bit 16 val))) (ucast (drop_bit 24 val)))
       (ucast (drop_bit 32 val))) (ucast (drop_bit 40 val))) (ucast (drop_bit 48 val)))
       (ucast (drop_bit 56 val))"

definition PushInt64 :: "streamWriter \<Rightarrow> uint64 \<Rightarrow> streamWriter" where
  "PushInt64 v val = PushUint64 v val"

text \<open>The writer's invariant: the bit offset lies in \<open>[0,8)\<close>.\<close>

definition offset_ok :: "streamWriter \<Rightarrow> bool" where
  "offset_ok v \<longleftrightarrow> 0 \<le> sint (bitOffset v) \<and> sint (bitOffset v) < 8"

text \<open>
  A byte-level push takes \<open>v\<close> to \<open>v'\<close> by appending the bytes \<open>bs\<close>: it adds exactly
  these bytes to what \<^verbatim>\<open>GetBytes()\<close> returns and leaves the pending bits alone.
\<close>

definition appends :: "streamWriter \<Rightarrow> byte list \<Rightarrow> streamWriter \<Rightarrow> bool" where
  "appends v bs v' \<longleftrightarrow>
     GetBytes v' = GetBytes v @ bs \<and> bitOffset v' = bitOffset v \<and> bitCache v' = bitCache v"

section \<open>BitStream\<close>

text \<open>Field \<open>bdata\<close> is the source's \<^verbatim>\<open>data\<close>.\<close>

record BitStream =
  bdata :: "byte list"
  dataPosition :: go_int
  current :: go_int
  bitCount :: go_int

definition CreateBitStream :: "byte list \<Rightarrow> BitStream" where
  "CreateBitStream newData = \<lparr>bdata = newData, dataPosition = 0, current = 0, bitCount = 0\<rparr>"

text \<open>
  \<^verbatim>\<open>EnsureBits\<close> has no loop: it pulls at most one byte. The index expression
  \<^verbatim>\<open>v.data[v.dataPosition]\<close> is reached with \<^verbatim>\<open>dataPosition < len(data)\<close>, and panics
  when the position is negative.
\<close>

definition EnsureBits :: "BitStream \<Rightarrow> go_int \<Rightarrow> panic + (bool \<times> BitStream)" where
  "EnsureBits v n =
     (if sint n \<le> sint (bitCount v) then Inr (True, v)
      else if sint (len (bdata v)) \<le> sint (dataPosition v) then Inr (False, v)
      else if sint (dataPosition v) < 0 then Inl IndexOutOfRange
      else
        let nextValue = bdata v ! unat (dataPosition v) in
        Inr (True, v\<lparr>dataPosition := dataPosition v + 1,
                      current := current v OR push_bit (unat (bitCount v)) (ucast nextValue),
                      bitCount := bitCount v + 8\<rparr>))"

definition WasteBits :: "BitStream \<Rightarrow> go_int \<Rightarrow> BitStream" where
  "WasteBits v n =
     v\<lparr>current := signed_drop_bit (unat n) (current v), bitCount := bitCount v - n\<rparr>"

text \<open>The end-of-data result of \<^verbatim>\<open>ReadBits\<close> and \<^verbatim>\<open>PeekByte\<close> is the value \<open>-1\<close>.\<close>

definition ReadBits :: "BitStream \<Rightarrow> go_int \<Rightarrow> panic + (go_int \<times> BitStream)" where
  "ReadBits v n =
     (if 16 < sint n then Inl MaxBitCount
      else
        case EnsureBits v n of
          Inl e \<Rightarrow> Inl e
        | Inr (ok, v') \<Rightarrow>
            if \<not> ok then Inr (- 1, v')
            else
              let result = current v' AND signed_drop_bit (unat (16 - n)) 0xffff in
              Inr (result, WasteBits v' n))"

definition PeekByte :: "BitStream \<Rightarrow> panic + (go_int \<times> BitStream)" where
  "PeekByte v =
     (case EnsureBits v 8 of
        Inl e \<Rightarrow> Inl e
      | Inr (ok, v') \<Rightarrow>
          if \<not> ok then Inr (- 1, v')
          else Inr (current v' AND 0xff, v'))"

text \<open>
  The bits consumed so far: eight for every byte pulled out of the buffer, less the bits
  still resident in the register.
\<close>

definition consumed :: "BitStream \<Rightarrow> int" where
  "consumed v = 8 * sint (dataPosition v) - sint (bitCount v)"

text \<open>
  The round trip of the bounded bit push: push \<open>b\<close> with \<^verbatim>\<open>PushBits(b, bits)\<close> into a fresh
  writer, open a \<^verbatim>\<open>BitStream\<close> over \<^verbatim>\<open>GetBytes()\<close>, and read \<^verbatim>\<open>bits\<close> bits.
\<close>

definition bits_roundtrip :: "byte \<Rightarrow> go_int \<Rightarrow> panic + go_int" where
  "bits_roundtrip b bits =
     (case PushBits CreateStreamWriter b bits of
        Inl e \<Rightarrow> Inl e
      | Inr w \<Rightarrow>
          (case ReadBits (CreateBitStream (GetBytes w)) bits of
             Inl e \<Rightarrow> Inl e
           | Inr (r, s) \<Rightarrow> Inr r))"

section \<open>Signed and unsigned readings of a word\<close>

text \<open>
  A non-negative \<^verbatim>\<open>int\<close> has the same value read signed or unsigned, and small sums and
  differences do not wrap.
\<close>

lemma sint_nonneg_uint: "0 \<le> sint (w :: 64 word) \<Longrightarrow> sint w = uint w"
proof -
  assume nn: "0 \<le> sint w"
  have "sint w < 2 ^ 64" using sint_lt [of w] by simp
  with nn have "take_bit 64 (sint w) = sint w" by (simp add: take_bit_int_eq_self)
  then show ?thesis using uint_sint [of w] by simp
qed

lemma sint_nonneg_unat: "0 \<le> sint (w :: 64 word) \<Longrightarrow> int (unat w) = sint w"
  by (simp add: sint_nonneg_uint)

lemma sint_nonneg_unat_less: "0 \<le> sint (w :: 64 word) \<Longrightarrow> unat w < 2 ^ 63"
proof -
  assume nn: "0 \<le> sint w"
  have "uint w < 2 ^ 63" using sint_lt [of w] sint_nonneg_uint [OF nn] by simp
  then have "int (unat w) < int (2 ^ 63)" by simp
  then show ?thesis by (simp only: of_nat_less_iff)
qed

lemma uint_small_sint: "uint (w :: 64 word) < 2 ^ 63 \<Longrightarrow> sint w = uint w"
proof -
  assume a: "uint w < 2 ^ 63"
  have "- (2 ^ 63) \<le> uint w" by (rule order_trans [of _ 0]) simp_all
  then have "signed_take_bit 63 (uint w) = uint w"
    using a by (rule signed_take_bit_int_eq_self)
  then show ?thesis by (simp add: sint_uint)
qed

lemma small_of_nat:
  assumes "k < 2 ^ 63"
  shows "sint (of_nat k :: 64 word) = int k" and "unat (of_nat k :: 64 word) = k"
  using assms
  by (simp_all add: signed_of_nat signed_take_bit_int_eq_self unat_of_nat take_bit_nat_eq_self)

lemma sint_plus:
  assumes "- (2 ^ 63) \<le> sint a + sint b" and "sint a + sint b < 2 ^ 63"
  shows "sint (a + b :: 64 word) = sint a + sint b"
proof -
  have "signed_take_bit 63 (sint a + sint b) = sint a + sint b"
    using assms by (rule signed_take_bit_int_eq_self)
  then show ?thesis by (simp add: sint_word_ariths)
qed

lemma sint_minus:
  assumes "- (2 ^ 63) \<le> sint a - sint b" and "sint a - sint b < 2 ^ 63"
  shows "sint (a - b :: 64 word) = sint a - sint b"
proof -
  have "signed_take_bit 63 (sint a - sint b) = sint a - sint b"
    using assms by (rule signed_take_bit_int_eq_self)
  then show ?thesis by (simp add: sint_word_ariths)
qed

lemma and_mask_range:
  assumes "0 \<le> sint (m :: 64 word)"
  shows "0 \<le> sint (c AND m) \<and> sint (c AND m) \<le> sint m"
proof -
  have m: "sint m = uint m" using assms by (rule sint_nonneg_uint)
  have "uint m < 2 ^ 63" using sint_lt [of m] m by simp
  moreover have "uint (c AND m) \<le> uint m"
    using word_and_le1 [of c m] by (simp add: word_le_def)
  ultimately have "sint (c AND m) = uint (c AND m)"
    by (intro uint_small_sint) linarith
  then show ?thesis using m \<open>uint (c AND m) \<le> uint m\<close> by simp
qed

lemma len_unat: "go_slice xs \<Longrightarrow> unat (len xs) = length xs"
  by (simp add: len_def go_slice_def unat_of_nat take_bit_nat_eq_self)

section \<open>Properties of streamReader\<close>

text \<open>
  The slice expression of \<^verbatim>\<open>ReadBytes\<close> is in range where the guards let it be reached, and
  the slice it returns has \<^verbatim>\<open>count\<close> elements, so the index expressions \<^verbatim>\<open>b[0]\<close>,
  \<^verbatim>\<open>b[1]\<close>, ... of the fixed-width reads are in range too.
\<close>

lemma ReadBytes_slice_in_range:
  assumes gs: "go_slice (data v)" and pos: "0 < sint count"
    and a: "\<not> Size v \<le> position v" and b: "\<not> Size v < position v + count"
  shows "unat (position v) + unat count \<le> length (data v)"
proof -
  have sz: "unat (Size v) = length (data v)"
    using len_unat [OF gs] by (simp add: Size_def)
  have lt: "unat (position v) < length (data v)"
    using a sz by (simp add: word_le_nat_alt)
  have "length (data v) < 2 ^ 63" using gs by (simp add: go_slice_def)
  moreover have "unat count < 2 ^ 63"
    using pos by (intro sint_nonneg_unat_less) simp
  ultimately have "unat (position v) + unat count < 2 ^ 64"
    using lt by simp
  then have "unat (position v + count) = unat (position v) + unat count"
    using unat_add_lem [of "position v" count] by simp
  then show ?thesis using b sz by (simp add: word_less_nat_alt)
qed

lemma ReadBytes_length:
  assumes "go_slice (data v)" and "ReadBytes v count = ((b, None), v')" and "0 < sint count"
  shows "length b = unat count"
proof -
  from assms(2,3) have g: "\<not> Size v \<le> position v" "\<not> Size v < position v + count"
    and b: "b = take (unat count) (drop (unat (position v)) (data v))"
    by (auto simp add: ReadBytes_def Let_def split: if_splits)
  from ReadBytes_slice_in_range [OF assms(1,3) g] b show ?thesis by simp
qed

text \<open>
  C10. For every reader and every \<open>count \<le> 0\<close>, \<^verbatim>\<open>ReadBytes(count)\<close> returns an empty
  result, no error, and the reader unchanged (the cursor in particular).
\<close>

theorem ReadBytes_nonpositive:
  "sint count \<le> 0 \<Longrightarrow> ReadBytes v count = (([], None), v)"
  by (simp add: ReadBytes_def)

theorem ReadBytes_nonpositive_witness:
  "sint (0 :: go_int) \<le> 0 \<and> sint (- 3 :: go_int) \<le> 0
   \<and> ReadBytes (CreateStreamReader [1, 2]) 0 = (([], None), CreateStreamReader [1, 2])
   \<and> ReadBytes (CreateStreamReader [1, 2]) (- 3) = (([], None), CreateStreamReader [1, 2])"
  using ReadBytes_nonpositive [of 0 "CreateStreamReader [1, 2]"]
    ReadBytes_nonpositive [of "- 3" "CreateStreamReader [1, 2]"]
  by simp

text \<open>
  C3, as stated: \<^verbatim>\<open>EOF()\<close> is true if and only if \<^verbatim>\<open>Position() == Size()\<close>, also after
  \<^verbatim>\<open>SetPosition\<close> or \<^verbatim>\<open>SkipBytes\<close> moved the cursor beyond the end. The source compares with
  \<^verbatim>\<open>>=\<close>: over the one-byte buffer \<open>[7]\<close>, after \<^verbatim>\<open>SkipBytes(2)\<close> the position is 2, the
  size is 1, and \<^verbatim>\<open>EOF()\<close> is true.
\<close>

theorem EOF_Position_ne_Size:
  "\<not> (EOF (SkipBytes (CreateStreamReader [7]) 2) \<longleftrightarrow>
       Position (SkipBytes (CreateStreamReader [7]) 2) = Size (SkipBytes (CreateStreamReader [7]) 2))"
  by (simp add: EOF_def SkipBytes_def CreateStreamReader_def Position_def Size_def len_def)

text \<open>
  C3, amended: \<^verbatim>\<open>EOF()\<close> is true if and only if \<^verbatim>\<open>Position() >= Size()\<close>. While the cursor
  is within the buffer (\<^verbatim>\<open>Position() <= Size()\<close>) that is \<^verbatim>\<open>Position() == Size()\<close>; after
  \<^verbatim>\<open>SetPosition(p)\<close> it is \<^verbatim>\<open>p >= Size()\<close>, and after \<^verbatim>\<open>SkipBytes(c)\<close> it is
  \<^verbatim>\<open>Position() + c >= Size()\<close> (in 64-bit unsigned arithmetic).
\<close>

theorem EOF_iff_Size_le_Position:
  "(EOF v \<longleftrightarrow> Size v \<le> Position v)
   \<and> (Position v \<le> Size v \<longrightarrow> (EOF v \<longleftrightarrow> Position v = Size v))
   \<and> (EOF (SetPosition v p) \<longleftrightarrow> Size v \<le> p)
   \<and> (EOF (SkipBytes v c) \<longleftrightarrow> Size v \<le> Position v + c)"
  by (auto simp add: EOF_def SkipBytes_def SetPosition_def Position_def Size_def)

theorem EOF_iff_Size_le_Position_witness:
  "Position (SetPosition (CreateStreamReader [1, 2]) 2) \<le> Size (SetPosition (CreateStreamReader [1, 2]) 2)
   \<and> EOF (SetPosition (CreateStreamReader [1, 2]) 2)
   \<and> Position (SetPosition (CreateStreamReader [1, 2]) 2) = Size (SetPosition (CreateStreamReader [1, 2]) 2)
   \<and> Position (CreateStreamReader [1, 2]) \<le> Size (CreateStreamReader [1, 2])
   \<and> \<not> EOF (CreateStreamReader [1, 2])
   \<and> EOF (SetPosition (CreateStreamReader [1, 2]) 5)"
  using EOF_iff_Size_le_Position [of "SetPosition (CreateStreamReader [1, 2]) 2" 5 0]
    EOF_iff_Size_le_Position [of "CreateStreamReader [1, 2]" 5 0]
  by (simp add: SetPosition_def CreateStreamReader_def Position_def Size_def len_def)

lemma past_end:
  assumes gs: "go_slice (data v)" and r: "remaining v = 0"
  shows "Size v \<le> position v"
  using r len_unat [OF gs] by (simp add: remaining_def Size_def word_le_nat_alt)

lemma ReadBytes_beyond:
  assumes gs: "go_slice (data v)" and c: "int (remaining v) < sint count"
  shows "ReadBytes v count = (([], Some io_EOF), v)"
proof -
  from c have pos: "0 < sint count" by linarith
  then have nn: "0 \<le> sint count" by simp
  then have ucount: "int (unat count) = sint count"
    by (rule sint_nonneg_unat)
  have sz: "unat (Size v) = length (data v)"
    using len_unat [OF gs] by (simp add: Size_def)
  have "Size v \<le> position v \<or> Size v < position v + count"
  proof (cases "Size v \<le> position v")
    case True
    then show ?thesis by simp
  next
    case False
    then have lt: "unat (position v) < length (data v)"
      using sz by (simp add: word_le_nat_alt)
    have "length (data v) < 2 ^ 63" using gs by (simp add: go_slice_def)
    moreover have "unat count < 2 ^ 63"
      using nn by (rule sint_nonneg_unat_less)
    ultimately have "unat (position v) + unat count < 2 ^ 64"
      using lt by simp
    then have "unat (position v + count) = unat (position v) + unat count"
      using unat_add_lem [of "position v" count] by simp
    moreover have "length (data v) < unat (position v) + unat count"
    proof -
      from c ucount have "int (length (data v) - unat (position v)) < int (unat count)"
        by (simp only: remaining_def)
      then have "length (data v) - unat (position v) < unat count"
        by (simp only: of_nat_less_iff)
      then show ?thesis by linarith
    qed
    ultimately show ?thesis using sz by (simp add: word_less_nat_alt)
  qed
  then show ?thesis using pos by (simp add: ReadBytes_def Let_def)
qed

text \<open>
  C4. Over a Go slice, \<^verbatim>\<open>ReadBytes(count)\<close> with \<^verbatim>\<open>count\<close> greater than the number of
  remaining bytes returns \<^verbatim>\<open>io.EOF\<close>, an empty result, and the reader unchanged. Every
  fixed-width read with fewer remaining bytes than its width (none at or past the end of the
  buffer, or only a part of a multi-byte field) returns 0 and \<^verbatim>\<open>io.EOF\<close> and leaves the
  reader unchanged: no byte of a partly available field is consumed.
\<close>

theorem reads_past_end:
  assumes gs: "go_slice (data v)"
  shows "(int (remaining v) < sint count \<longrightarrow> ReadBytes v count = (([], Some io_EOF), v))
   \<and> (remaining v < 1 \<longrightarrow> ReadByte v = ((0, Some io_EOF), v))
   \<and> (remaining v < 2 \<longrightarrow>
        ReadUInt16 v = ((0, Some io_EOF), v) \<and> ReadInt16 v = ((0, Some io_EOF), v))
   \<and> (remaining v < 4 \<longrightarrow>
        ReadUInt32 v = ((0, Some io_EOF), v) \<and> ReadInt32 v = ((0, Some io_EOF), v))
   \<and> (remaining v < 8 \<longrightarrow>
        ReadUInt64 v = ((0, Some io_EOF), v) \<and> ReadInt64 v = ((0, Some io_EOF), v))"
proof (intro conjI impI)
  assume "int (remaining v) < sint count"
  with gs show "ReadBytes v count = (([], Some io_EOF), v)" by (rule ReadBytes_beyond)
next
  assume "remaining v < 1"
  then have "Size v \<le> position v" using past_end [OF gs] by simp
  then show "ReadByte v = ((0, Some io_EOF), v)" by (simp add: ReadByte_def)
next
  assume "remaining v < 2"
  then have r: "ReadBytes v 2 = (([], Some io_EOF), v)" by (intro ReadBytes_beyond [OF gs]) simp
  then show "ReadUInt16 v = ((0, Some io_EOF), v)" by (simp add: ReadUInt16_def)
  then show "ReadInt16 v = ((0, Some io_EOF), v)" by (simp add: ReadInt16_def)
next
  assume "remaining v < 4"
  then have r: "ReadBytes v 4 = (([], Some io_EOF), v)" by (intro ReadBytes_beyond [OF gs]) simp
  then show "ReadUInt32 v = ((0, Some io_EOF), v)" by (simp add: ReadUInt32_def)
  then show "ReadInt32 v = ((0, Some io_EOF), v)" by (simp add: ReadInt32_def)
next
  assume "remaining v < 8"
  then have r: "ReadBytes v 8 = (([], Some io_EOF), v)" by (intro ReadBytes_beyond [OF gs]) simp
  then show "ReadUInt64 v = ((0, Some io_EOF), v)" by (simp add: ReadUInt64_def)
  then show "ReadInt64 v = ((0, Some io_EOF), v)" by (simp add: ReadInt64_def)
qed

theorem reads_past_end_witness:
  "go_slice (data (SetPosition (CreateStreamReader [1, 2, 3]) 3))
   \<and> int (remaining (SetPosition (CreateStreamReader [1, 2, 3]) 3)) < sint (1 :: go_int)
   \<and> remaining (SetPosition (CreateStreamReader [1, 2, 3]) 3) < 1
   \<and> ReadBytes (SetPosition (CreateStreamReader [1, 2, 3]) 3) 1 =
       (([], Some io_EOF), SetPosition (CreateStreamReader [1, 2, 3]) 3)
   \<and> ReadByte (SetPosition (CreateStreamReader [1, 2, 3]) 3) =
       ((0, Some io_EOF), SetPosition (CreateStreamReader [1, 2, 3]) 3)
   \<and> go_slice (data (SetPosition (CreateStreamReader [1, 2, 3]) 2))
   \<and> remaining (SetPosition (CreateStreamReader [1, 2, 3]) 2) < 2
   \<and> ReadUInt16 (SetPosition (CreateStreamReader [1, 2, 3]) 2) =
       ((0, Some io_EOF), SetPosition (CreateStreamReader [1, 2, 3]) 2)
   \<and> ReadUInt32 (SetPosition (CreateStreamReader [1, 2, 3]) 2) =
       ((0, Some io_EOF), SetPosition (CreateStreamReader [1, 2, 3]) 2)
   \<and> ReadInt64 (SetPosition (CreateStreamReader [1, 2, 3]) 2) =
       ((0, Some io_EOF), SetPosition (CreateStreamReader [1, 2, 3]) 2)"
proof -
  have g: "go_slice (data (SetPosition (CreateStreamReader [1, 2, 3]) p))" for p
    by (simp add: go_slice_def SetPosition_def CreateStreamReader_def)
  show ?thesis
    using g reads_past_end [OF g [of 3], of 1] reads_past_end [OF g [of 2], of 2]
    by (simp add: remaining_def SetPosition_def CreateStreamReader_def)
qed

section \<open>The 32-bit round trip\<close>

lemma compose32:
  "ucast (ucast val :: byte) OR push_bit 8 (ucast (ucast (drop_bit 8 val) :: byte))
     OR push_bit 16 (ucast (ucast (drop_bit 16 val) :: byte))
     OR push_bit 24 (ucast (ucast (drop_bit 24 val) :: byte)) = (val :: uint32)"
  (is "?lhs = _")
proof (rule bit_word_eqI)
  fix n :: nat
  assume "n < LENGTH(32)"
  then consider "n < 8" | "8 \<le> n \<and> n < 16" | "16 \<le> n \<and> n < 24" | "24 \<le> n \<and> n < 32"
    by fastforce
  then show "bit ?lhs n = bit val n"
    by cases (auto simp add: bit_simps)
qed

text \<open>
  C8. For every 32-bit value \<open>val\<close>: \<^verbatim>\<open>PushUint32(val)\<close> on a fresh writer, then
  \<^verbatim>\<open>ReadUInt32()\<close> at position 0 of a reader over \<^verbatim>\<open>GetBytes()\<close>, returns \<open>val\<close> and no
  error, with the cursor at 4.
\<close>

theorem PushUint32_ReadUInt32:
  "ReadUInt32 (CreateStreamReader (GetBytes (PushUint32 CreateStreamWriter val))) =
     ((val, None), \<lparr>data = GetBytes (PushUint32 CreateStreamWriter val), position = 4\<rparr>)"
  by (simp add: ReadUInt32_def ReadBytes_def CreateStreamReader_def GetBytes_def PushUint32_def
      CreateStreamWriter_def WriteByte_def Size_def len_def compose32)

section \<open>Properties of streamWriter\<close>

lemma CreateStreamWriter_offset_ok: "offset_ok CreateStreamWriter"
  by (simp add: offset_ok_def CreateStreamWriter_def)

lemma offset_ok_nat: "offset_ok v \<longleftrightarrow> (\<exists>k<8. bitOffset v = of_nat k)"
proof
  assume "offset_ok v"
  then have nn: "0 \<le> sint (bitOffset v)" and lt: "sint (bitOffset v) < 8"
    by (simp_all add: offset_ok_def)
  have "int (unat (bitOffset v)) = sint (bitOffset v)" using nn by (rule sint_nonneg_unat)
  then have "unat (bitOffset v) < 8" using lt by linarith
  moreover have "bitOffset v = of_nat (unat (bitOffset v))" by simp
  ultimately show "\<exists>k<8. bitOffset v = of_nat k" by blast
next
  assume "\<exists>k<8. bitOffset v = of_nat k"
  then obtain k where k: "k < 8" "bitOffset v = of_nat k" by blast
  then have "sint (bitOffset v) = int k" using small_of_nat(1) [of k] by simp
  then show "offset_ok v" using k by (simp add: offset_ok_def)
qed

lemma low_bit: "(val AND 1 = 1) \<longleftrightarrow> bit (val :: 'a::len word) 0"
  by (simp add: and_one_eq bit_0 odd_iff_mod_2_eq_one)

lemma PushBit_partial:
  assumes "bitOffset v = of_nat k" and "k < 7"
  shows "PushBit v b =
     Inr (v\<lparr>bitCache := (if b then bitCache v OR push_bit k 1 else bitCache v),
            bitOffset := of_nat (Suc k)\<rparr>)"
proof -
  have "k < 2 ^ 63" using assms(2) by simp
  then have s: "sint (of_nat k :: 64 word) = int k" "unat (of_nat k :: 64 word) = k"
    by (rule small_of_nat)+
  have u: "unat (of_nat (Suc k) :: 64 word) = Suc k"
    using assms(2) by (intro small_of_nat(2)) simp
  have "(of_nat (Suc k) :: 64 word) \<noteq> 8"
  proof
    assume "(of_nat (Suc k) :: 64 word) = 8"
    then have "unat (of_nat (Suc k) :: 64 word) = unat (8 :: 64 word)" by (rule arg_cong)
    then show False using u assms(2) by simp
  qed
  then show ?thesis using assms(1) s by (simp add: PushBit_def Let_def)
qed

lemma PushBit_complete:
  assumes "bitOffset v = 7"
  shows "PushBit v b =
     Inr (v\<lparr>wdata := wdata v @ [if b then bitCache v OR push_bit 7 1 else bitCache v],
            bitCache := 0, bitOffset := 0\<rparr>)"
  using assms by (simp add: PushBit_def Let_def WriteByte_def)

text \<open>
  The bits a run of the loop adds to the cache: pushing the lowest bit at offset \<open>k\<close> and
  then \<open>n\<close> bits of the shifted value at offset \<open>k + 1\<close> is pushing \<open>n + 1\<close> bits of the
  value at offset \<open>k\<close>.
\<close>

lemma cache_step:
  "(if bit val 0 then c OR push_bit k 1 else c)
     OR push_bit (Suc k) (ucast (take_bit n (drop_bit 1 val)))
   = (c :: byte) OR push_bit k (ucast (take_bit (Suc n) (val :: 'a::len word)))"
proof (rule bit_word_eqI)
  fix i :: nat
  assume "i < LENGTH(8)"
  have "i < k \<or> i = k \<or> (\<exists>j. i = Suc (k + j))" by presburger
  then show "bit ((if bit val 0 then c OR push_bit k 1 else c)
       OR push_bit (Suc k) (ucast (take_bit n (drop_bit 1 val)))) i
     = bit (c OR push_bit k (ucast (take_bit (Suc n) val))) i"
    using \<open>i < LENGTH(8)\<close> by (auto simp add: bit_simps simp del: push_bit_Suc)
qed

lemma PushBits_loop_spec:
  assumes "bitOffset v = of_nat k" and "k < 8" and "k + n \<le> 8"
  shows "PushBits_loop v val n =
     Inr (if k + n < 8
          then v\<lparr>bitCache := bitCache v OR push_bit k (ucast (take_bit n val)),
                 bitOffset := of_nat (k + n)\<rparr>
          else v\<lparr>wdata := wdata v @ [bitCache v OR push_bit k (ucast (take_bit n val))],
                 bitCache := 0, bitOffset := 0\<rparr>)"
  using assms
proof (induction n arbitrary: v val k)
  case 0
  then show ?case by simp
next
  case (Suc n)
  show ?case
  proof (cases "k = 7")
    case True
    then have n: "n = 0" using Suc.prems by simp
    have "bitOffset v = 7" using Suc.prems(1) True by simp
    then show ?thesis
      using PushBit_complete [of v "val AND 1 = 1"] cache_step [of val "bitCache v" 7 0] True n
      by (simp add: low_bit del: push_bit_Suc)
  next
    case False
    then have k: "k < 7" using Suc.prems by simp
    let ?v1 = "v\<lparr>bitCache := (if val AND 1 = 1 then bitCache v OR push_bit k 1 else bitCache v),
            bitOffset := of_nat (Suc k)\<rparr>"
    have pb: "PushBit v (val AND 1 = 1) = Inr ?v1"
      using Suc.prems(1) k by (rule PushBit_partial)
    have "PushBits_loop ?v1 (drop_bit 1 val) n =
       Inr (if Suc k + n < 8
          then ?v1\<lparr>bitCache := bitCache ?v1 OR push_bit (Suc k) (ucast (take_bit n (drop_bit 1 val))),
                 bitOffset := of_nat (Suc k + n)\<rparr>
          else ?v1\<lparr>wdata := wdata ?v1 @ [bitCache ?v1 OR push_bit (Suc k) (ucast (take_bit n (drop_bit 1 val)))],
                 bitCache := 0, bitOffset := 0\<rparr>)"
      using k Suc.prems by (intro Suc.IH) simp_all
    then show ?thesis
      using pb cache_step [of val "bitCache v" k n] by (simp add: low_bit del: push_bit_Suc)
  qed
qed

lemma PushBit_offset_ok:
  assumes "offset_ok v"
  shows "\<exists>v'. PushBit v b = Inr v' \<and> offset_ok v'"
proof -
  from assms obtain k where k: "k < 8" "bitOffset v = of_nat k"
    by (auto simp add: offset_ok_nat)
  show ?thesis
  proof (cases "k = 7")
    case True
    then have "bitOffset v = 7" using k by simp
    then show ?thesis using PushBit_complete [of v b] by (simp add: offset_ok_def)
  next
    case False
    then have "k < 7" using k by simp
    with k(2) have "PushBit v b =
       Inr (v\<lparr>bitCache := (if b then bitCache v OR push_bit k 1 else bitCache v),
            bitOffset := of_nat (Suc k)\<rparr>)" by (rule PushBit_partial)
    moreover have "\<exists>j<8. (of_nat (Suc k) :: 64 word) = of_nat j" using \<open>k < 7\<close> by (intro exI [of _ "Suc k"]) simp
    ultimately show ?thesis by (simp add: offset_ok_nat)
  qed
qed

lemma PushBits_loop_offset_ok:
  "offset_ok v \<Longrightarrow> \<exists>v'. PushBits_loop v val n = Inr v' \<and> offset_ok v'"
proof (induction n arbitrary: v val)
  case 0
  then show ?case by simp
next
  case (Suc n)
  from PushBit_offset_ok [OF Suc.prems, of "val AND 1 = 1"]
  obtain v1 where v1: "PushBit v (val AND 1 = 1) = Inr v1" "offset_ok v1" by blast
  from Suc.IH [OF v1(2), of "drop_bit 1 val"] v1(1) show ?case by simp
qed

lemma PushBytes_fields:
  "wdata (PushBytes v bs) = wdata v @ bs \<and> bitOffset (PushBytes v bs) = bitOffset v
   \<and> bitCache (PushBytes v bs) = bitCache v"
  by (induction bs arbitrary: v) (simp_all add: WriteByte_def)

lemma PushBit_step:
  assumes "offset_ok v"
  shows "\<exists>v'. PushBit v b = Inr v' \<and> offset_ok v' \<and>
      (if bitOffset v = 7
       then GetBytes v' = GetBytes v @ [if b then bitCache v OR push_bit 7 1 else bitCache v]
            \<and> bitCache v' = 0 \<and> bitOffset v' = 0
       else GetBytes v' = GetBytes v \<and> bitOffset v' = bitOffset v + 1)"
proof (cases "bitOffset v = 7")
  case True
  then show ?thesis using PushBit_complete [of v b] by (simp add: offset_ok_def GetBytes_def)
next
  case False
  from assms obtain k where k: "k < 8" "bitOffset v = of_nat k"
    by (auto simp add: offset_ok_nat)
  with False have "k < 7" by (cases "k = 7") simp_all
  with k(2) have pb: "PushBit v b =
     Inr (v\<lparr>bitCache := (if b then bitCache v OR push_bit k 1 else bitCache v),
          bitOffset := of_nat (Suc k)\<rparr>)" by (rule PushBit_partial)
  from PushBit_offset_ok [OF assms, of b] pb k(2) False show ?thesis
    by (auto simp add: GetBytes_def)
qed

lemma PushBits_pending:
  assumes "offset_ok v" and "unat (bitOffset v) + nat (sint bits) \<le> 8"
  shows "PushBits v val bits =
     Inr (if unat (bitOffset v) + nat (sint bits) < 8
          then v\<lparr>bitCache := bitCache v OR push_bit (unat (bitOffset v)) (take_bit (nat (sint bits)) val),
                 bitOffset := bitOffset v + of_nat (nat (sint bits))\<rparr>
          else v\<lparr>wdata := wdata v @ [bitCache v OR push_bit (unat (bitOffset v)) (take_bit (nat (sint bits)) val)],
                 bitCache := 0, bitOffset := 0\<rparr>)"
proof -
  from assms(1) obtain k where k: "k < 8" "bitOffset v = of_nat k"
    by (auto simp add: offset_ok_nat)
  then have u: "unat (bitOffset v) = k" using small_of_nat(2) [of k] by simp
  from PushBits_loop_spec [OF k(2) k(1), of "nat (sint bits)" val] assms(2) u k(2)
  show ?thesis by (simp add: PushBits_def)
qed

lemma byte_pushes:
  "appends v bs (PushBytes v bs)"
  "appends v [ucast x16, ucast (drop_bit 8 x16)] (PushUint16 v x16)"
  "appends v [ucast x16, ucast (drop_bit 8 x16)] (PushInt16 v x16)"
  "appends v [ucast x32, ucast (drop_bit 8 x32), ucast (drop_bit 16 x32), ucast (drop_bit 24 x32)]
     (PushUint32 v x32)"
  "appends v [ucast x32, ucast (drop_bit 8 x32), ucast (drop_bit 16 x32), ucast (drop_bit 24 x32)]
     (PushInt32 v x32)"
  "appends v [ucast x64, ucast (drop_bit 8 x64), ucast (drop_bit 16 x64), ucast (drop_bit 24 x64),
      ucast (drop_bit 32 x64), ucast (drop_bit 40 x64), ucast (drop_bit 48 x64),
      ucast (drop_bit 56 x64)] (PushUint64 v x64)"
  "appends v [ucast x64, ucast (drop_bit 8 x64), ucast (drop_bit 16 x64), ucast (drop_bit 24 x64),
      ucast (drop_bit 32 x64), ucast (drop_bit 40 x64), ucast (drop_bit 48 x64),
      ucast (drop_bit 56 x64)] (PushInt64 v x64)"
  by (simp_all add: appends_def GetBytes_def PushBytes_fields PushUint16_def PushInt16_def
      PushUint32_def PushInt32_def PushUint64_def PushInt64_def WriteByte_def)

lemma appends_offset_ok: "appends v bs v' \<Longrightarrow> offset_ok v \<Longrightarrow> offset_ok v'"
  by (simp add: appends_def offset_ok_def)

text \<open>
  C5. Let the bit offset of the writer be in \<open>[0,8)\<close>. Then
  \<^item> \<^verbatim>\<open>PushBit\<close> does not panic and leaves the offset in \<open>[0,8)\<close>; at offset 7 (the eighth
    bit) it appends the cache byte to the buffer and resets cache and offset to 0, and at
    any other offset it leaves \<^verbatim>\<open>GetBytes()\<close> as it is and adds 1 to the offset;
  \<^item> \<^verbatim>\<open>PushBits\<close>, \<^verbatim>\<open>PushBits16\<close> and \<^verbatim>\<open>PushBits32\<close> do not panic and leave the offset
    in \<open>[0,8)\<close>, for every value and every bit count;
  \<^item> bit pushes that do not complete the byte leave \<^verbatim>\<open>GetBytes()\<close> unchanged, and the bit
    pushes that complete it append exactly the completed byte and reset cache and offset;
  \<^item> every byte-level push (\<^verbatim>\<open>PushBytes\<close>, \<^verbatim>\<open>PushUint16\<close>, \<^verbatim>\<open>PushInt16\<close>,
    \<^verbatim>\<open>PushUint32\<close>, \<^verbatim>\<open>PushInt32\<close>, \<^verbatim>\<open>PushUint64\<close>, \<^verbatim>\<open>PushInt64\<close>) appends its own
    bytes only, little-endian, and leaves cache and offset untouched: the pending bits are
    neither flushed nor aligned.
\<close>

theorem writer_offset_invariant:
  assumes ok: "offset_ok v"
  shows "(\<exists>v'. PushBit v b = Inr v' \<and> offset_ok v' \<and>
        (if bitOffset v = 7
         then GetBytes v' = GetBytes v @ [if b then bitCache v OR push_bit 7 1 else bitCache v]
              \<and> bitCache v' = 0 \<and> bitOffset v' = 0
         else GetBytes v' = GetBytes v \<and> bitOffset v' = bitOffset v + 1))
    \<and> (\<exists>v'. PushBits v val8 bits = Inr v' \<and> offset_ok v')
    \<and> (\<exists>v'. PushBits16 v val16 bits = Inr v' \<and> offset_ok v')
    \<and> (\<exists>v'. PushBits32 v val32 bits = Inr v' \<and> offset_ok v')
    \<and> (unat (bitOffset v) + nat (sint bits) < 8 \<longrightarrow>
         (\<exists>v'. PushBits v val8 bits = Inr v' \<and> GetBytes v' = GetBytes v))
    \<and> (unat (bitOffset v) + nat (sint bits) = 8 \<longrightarrow>
         (\<exists>v'. PushBits v val8 bits = Inr v' \<and> bitCache v' = 0 \<and> bitOffset v' = 0
            \<and> GetBytes v' = GetBytes v @
                 [bitCache v OR push_bit (unat (bitOffset v)) (take_bit (nat (sint bits)) val8)]))
    \<and> appends v bs (PushBytes v bs) \<and> offset_ok (PushBytes v bs)
    \<and> appends v [ucast x16, ucast (drop_bit 8 x16)] (PushUint16 v x16)
    \<and> offset_ok (PushUint16 v x16)
    \<and> appends v [ucast x16, ucast (drop_bit 8 x16)] (PushInt16 v x16)
    \<and> offset_ok (PushInt16 v x16)
    \<and> appends v [ucast x32, ucast (drop_bit 8 x32), ucast (drop_bit 16 x32),
          ucast (drop_bit 24 x32)] (PushUint32 v x32)
    \<and> offset_ok (PushUint32 v x32)
    \<and> appends v [ucast x32, ucast (drop_bit 8 x32), ucast (drop_bit 16 x32),
          ucast (drop_bit 24 x32)] (PushInt32 v x32)
    \<and> offset_ok (PushInt32 v x32)
    \<and> appends v [ucast x64, ucast (drop_bit 8 x64), ucast (drop_bit 16 x64),
          ucast (drop_bit 24 x64), ucast (drop_bit 32 x64), ucast (drop_bit 40 x64),
          ucast (drop_bit 48 x64), ucast (drop_bit 56 x64)] (PushUint64 v x64)
    \<and> offset_ok (PushUint64 v x64)
    \<and> appends v [ucast x64, ucast (drop_bit 8 x64), ucast (drop_bit 16 x64),
          ucast (drop_bit 24 x64), ucast (drop_bit 32 x64), ucast (drop_bit 40 x64),
          ucast (drop_bit 48 x64), ucast (drop_bit 56 x64)] (PushInt64 v x64)
    \<and> offset_ok (PushInt64 v x64)"
proof -
  note bp = byte_pushes [of v]
  have pending: "unat (bitOffset v) + nat (sint bits) < 8 \<longrightarrow>
         (\<exists>v'. PushBits v val8 bits = Inr v' \<and> GetBytes v' = GetBytes v)"
    using PushBits_pending [OF ok, of bits val8] by (simp add: GetBytes_def)
  have complete: "unat (bitOffset v) + nat (sint bits) = 8 \<longrightarrow>
         (\<exists>v'. PushBits v val8 bits = Inr v' \<and> bitCache v' = 0 \<and> bitOffset v' = 0
            \<and> GetBytes v' = GetBytes v @
                 [bitCache v OR push_bit (unat (bitOffset v)) (take_bit (nat (sint bits)) val8)])"
    using PushBits_pending [OF ok, of bits val8] by (simp add: GetBytes_def)
  note oks = bp [THEN appends_offset_ok, OF ok]
  have b8: "\<exists>v'. PushBits v val8 bits = Inr v' \<and> offset_ok v'"
    unfolding PushBits_def using ok by (rule PushBits_loop_offset_ok)
  have b16: "\<exists>v'. PushBits16 v val16 bits = Inr v' \<and> offset_ok v'"
    unfolding PushBits16_def using ok by (rule PushBits_loop_offset_ok)
  have b32: "\<exists>v'. PushBits32 v val32 bits = Inr v' \<and> offset_ok v'"
    unfolding PushBits32_def using ok by (rule PushBits_loop_offset_ok)
  show ?thesis
    by (intro conjI PushBit_step [OF ok] pending complete b8 b16 b32 bp oks)
qed

theorem writer_offset_invariant_witness:
  "offset_ok \<lparr>wdata = [0x11], bitOffset = 3, bitCache = 5\<rparr>
   \<and> PushBit \<lparr>wdata = [0x11], bitOffset = 3, bitCache = 5\<rparr> True =
       Inr \<lparr>wdata = [0x11], bitOffset = 4, bitCache = 13\<rparr>
   \<and> unat (3 :: go_int) + nat (sint (2 :: go_int)) < 8
   \<and> (\<exists>v'. PushBits \<lparr>wdata = [0x11], bitOffset = 3, bitCache = 5\<rparr> 3 2 = Inr v'
          \<and> GetBytes v' = [0x11])
   \<and> unat (3 :: go_int) + nat (sint (5 :: go_int)) = 8
   \<and> (\<exists>v'. PushBits \<lparr>wdata = [0x11], bitOffset = 3, bitCache = 5\<rparr> 0x1F 5 = Inr v'
          \<and> bitCache v' = 0 \<and> bitOffset v' = 0 \<and> GetBytes v' = [0x11, 0xFD])
   \<and> GetBytes (PushUint16 \<lparr>wdata = [0x11], bitOffset = 3, bitCache = 5\<rparr> 0x0201) = [0x11, 1, 2]
   \<and> bitOffset (PushUint16 \<lparr>wdata = [0x11], bitOffset = 3, bitCache = 5\<rparr> 0x0201) = 3"
proof -
  have ok: "offset_ok \<lparr>wdata = [0x11], bitOffset = 3, bitCache = 5\<rparr>"
    by (simp add: offset_ok_def)
  have pb: "PushBit \<lparr>wdata = [0x11], bitOffset = 3, bitCache = 5\<rparr> True =
       Inr \<lparr>wdata = [0x11], bitOffset = 4, bitCache = 13\<rparr>"
    by (simp add: PushBit_def)
  show ?thesis
    using ok pb
      writer_offset_invariant [OF ok, of True 3 2 0 0 "[]" "0x0201" 0 0]
      writer_offset_invariant [OF ok, of True "0x1F" 5 0 0 "[]" "0x0201" 0 0]
    by (simp add: GetBytes_def appends_def)
qed

section \<open>Properties of BitStream\<close>

lemma small_count_cases:
  assumes "0 < sint (n :: 64 word)" and "sint n \<le> 16"
  shows "n \<in> {1, 2, 3, 4, 5, 6, 7, 8, 9, 10, 11, 12, 13, 14, 15, 16}"
proof -
  have "sint n = 1 \<or> sint n = 2 \<or> sint n = 3 \<or> sint n = 4 \<or> sint n = 5 \<or> sint n = 6
      \<or> sint n = 7 \<or> sint n = 8 \<or> sint n = 9 \<or> sint n = 10 \<or> sint n = 11 \<or> sint n = 12
      \<or> sint n = 13 \<or> sint n = 14 \<or> sint n = 15 \<or> sint n = 16"
    using assms by arith
  moreover have "\<And>k. sint n = k \<Longrightarrow> n = word_of_int k" by auto
  ultimately show ?thesis by fastforce
qed

lemma ReadBits_mask:
  assumes "0 < sint (n :: 64 word)" and "sint n \<le> 16"
  shows "sint (signed_drop_bit (unat (16 - n)) (0xffff :: 64 word)) = 2 ^ nat (sint n) - 1"
  using small_count_cases [OF assms] by (elim insertE emptyE) simp_all

lemma ReadBits_value_range:
  assumes "0 < sint (n :: 64 word)" and "sint n \<le> 16"
  shows "0 \<le> sint (c AND signed_drop_bit (unat (16 - n)) (0xffff :: 64 word))
     \<and> sint (c AND signed_drop_bit (unat (16 - n)) (0xffff :: 64 word)) < 2 ^ nat (sint n)"
proof -
  let ?m = "signed_drop_bit (unat (16 - n)) (0xffff :: 64 word)"
  have m: "sint ?m = 2 ^ nat (sint n) - 1" using assms by (rule ReadBits_mask)
  then have "0 \<le> sint ?m" by simp
  then have "0 \<le> sint (c AND ?m) \<and> sint (c AND ?m) \<le> sint ?m" by (rule and_mask_range)
  then show ?thesis using m by simp
qed

lemma PeekByte_value_range: "0 \<le> sint (c AND (0xff :: 64 word)) \<and> sint (c AND (0xff :: 64 word)) < 256"
  using and_mask_range [of "0xff" c] by simp

text \<open>
  C9. For every \<^verbatim>\<open>BitStream\<close> and every bit count \<open>n\<close> with \<open>0 < n \<le> 16\<close>: a call
  \<^verbatim>\<open>ReadBits(n)\<close> that returns either returns \<open>-1\<close>, and then \<^verbatim>\<open>EnsureBits\<close> reported the
  end of the data, or returns a value in \<open>[0, 2^n)\<close>, and then \<^verbatim>\<open>EnsureBits\<close> succeeded.
  Likewise \<^verbatim>\<open>PeekByte()\<close> returns \<open>-1\<close> at the end of the data and a value in \<open>[0, 256)\<close>
  otherwise. So \<open>-1\<close> is never a legitimate value.
\<close>

theorem results_in_range:
  "(0 < sint n \<and> sint n \<le> 16 \<and> ReadBits v n = Inr (r, v') \<longrightarrow>
      (r = - 1 \<and> EnsureBits v n = Inr (False, v'))
      \<or> (0 \<le> sint r \<and> sint r < 2 ^ nat (sint n)
          \<and> (\<exists>v1. EnsureBits v n = Inr (True, v1) \<and> v' = WasteBits v1 n)))
   \<and> (PeekByte v = Inr (r, v') \<longrightarrow>
      (r = - 1 \<and> EnsureBits v 8 = Inr (False, v'))
      \<or> (0 \<le> sint r \<and> sint r < 256 \<and> EnsureBits v 8 = Inr (True, v')))"
proof (intro conjI impI)
  assume a: "0 < sint n \<and> sint n \<le> 16 \<and> ReadBits v n = Inr (r, v')"
  then have n: "0 < sint n" "sint n \<le> 16" and rb: "ReadBits v n = Inr (r, v')" by simp_all
  show "(r = - 1 \<and> EnsureBits v n = Inr (False, v'))
      \<or> (0 \<le> sint r \<and> sint r < 2 ^ nat (sint n)
          \<and> (\<exists>v1. EnsureBits v n = Inr (True, v1) \<and> v' = WasteBits v1 n))"
  proof (cases "EnsureBits v n")
    case (Inl e)
    with rb n show ?thesis by (simp add: ReadBits_def)
  next
    case (Inr p)
    obtain ok v1 where p: "p = (ok, v1)" by (cases p)
    show ?thesis
    proof (cases ok)
      case True
      with rb n Inr p have "r = current v1 AND signed_drop_bit (unat (16 - n)) 0xffff"
        and "v' = WasteBits v1 n" by (simp_all add: ReadBits_def Let_def)
      then show ?thesis using ReadBits_value_range [OF n] Inr p True by simp
    next
      case False
      with rb n Inr p show ?thesis by (simp add: ReadBits_def)
    qed
  qed
next
  assume pb: "PeekByte v = Inr (r, v')"
  show "(r = - 1 \<and> EnsureBits v 8 = Inr (False, v'))
      \<or> (0 \<le> sint r \<and> sint r < 256 \<and> EnsureBits v 8 = Inr (True, v'))"
  proof (cases "EnsureBits v 8")
    case (Inl e)
    with pb show ?thesis by (simp add: PeekByte_def)
  next
    case (Inr p)
    obtain ok v1 where p: "p = (ok, v1)" by (cases p)
    show ?thesis
    proof (cases ok)
      case True
      with pb Inr p have "r = current v1 AND 0xff" and "v' = v1"
        by (auto simp add: PeekByte_def)
      then show ?thesis using PeekByte_value_range [of "current v1"] Inr p True by simp
    next
      case False
      with pb Inr p show ?thesis by (simp add: PeekByte_def)
    qed
  qed
qed

theorem results_in_range_witness:
  "0 < sint (4 :: go_int) \<and> sint (4 :: go_int) \<le> 16
   \<and> ReadBits (CreateBitStream [0xAB]) 4 =
       Inr (0xB, \<lparr>bdata = [0xAB], dataPosition = 1, current = 0xA, bitCount = 4\<rparr>)
   \<and> 0 \<le> sint (0xB :: go_int) \<and> sint (0xB :: go_int) < 2 ^ nat (sint (4 :: go_int))
   \<and> PeekByte (CreateBitStream [0xAB]) =
       Inr (0xAB, \<lparr>bdata = [0xAB], dataPosition = 1, current = 0xAB, bitCount = 8\<rparr>)
   \<and> 0 \<le> sint (0xAB :: go_int) \<and> sint (0xAB :: go_int) < 256"
  using results_in_range [of 4 "CreateBitStream [0xAB]" "0xB"
      "\<lparr>bdata = [0xAB], dataPosition = 1, current = 0xA, bitCount = 4\<rparr>"]
    results_in_range [of 4 "CreateBitStream [0xAB]" "0xAB"
      "\<lparr>bdata = [0xAB], dataPosition = 1, current = 0xAB, bitCount = 8\<rparr>"]
  by (simp add: ReadBits_def PeekByte_def EnsureBits_def CreateBitStream_def WasteBits_def len_def)

text \<open>
  C6. For every \<^verbatim>\<open>BitStream\<close> and every bit count above 16, \<^verbatim>\<open>ReadBits\<close> panics, whatever
  the buffer holds, and the panic is not the end-of-data result \<open>-1\<close>.
\<close>

theorem ReadBits_above_16:
  "16 < sint n \<Longrightarrow>
     ReadBits v n = Inl MaxBitCount \<and> ReadBits (v\<lparr>bdata := d\<rparr>) n = ReadBits v n
     \<and> ReadBits v n \<noteq> Inr (- 1, v')"
  by (simp add: ReadBits_def)

theorem ReadBits_above_16_witness:
  "16 < sint (17 :: go_int) \<and> ReadBits (CreateBitStream [1, 2, 3]) 17 = Inl MaxBitCount
   \<and> ReadBits (CreateBitStream []) 17 = Inl MaxBitCount"
  using ReadBits_above_16 [of 17 "CreateBitStream [1, 2, 3]" "[]" "CreateBitStream []"]
  by (simp add: CreateBitStream_def)

text \<open>
  \<^verbatim>\<open>EnsureBits\<close> reports the end of the data only when the request is not yet met and the
  buffer is exhausted, and a request of at most 8 bits is met when it succeeds from a bit
  count that is not negative.
\<close>

lemma EnsureBits_fails_only_at_end:
  "EnsureBits v n = Inr (False, v') \<Longrightarrow>
     v' = v \<and> sint (bitCount v) < sint n \<and> sint (len (bdata v)) \<le> sint (dataPosition v)"
  by (auto simp add: EnsureBits_def Let_def split: if_splits)

lemma EnsureBits_enough_up_to_8:
  assumes "0 \<le> sint (bitCount v)" and "sint n \<le> 8" and "EnsureBits v n = Inr (True, v')"
  shows "sint n \<le> sint (bitCount v')"
proof (cases "sint n \<le> sint (bitCount v)")
  case True
  with assms(3) show ?thesis by (simp add: EnsureBits_def)
next
  case False
  with assms(3) have "bitCount v' = bitCount v + 8"
    by (auto simp add: EnsureBits_def Let_def split: if_splits)
  moreover have "sint (bitCount v + 8) = sint (bitCount v) + sint (8 :: 64 word)"
    using False assms(1,2) by (intro sint_plus) simp_all
  ultimately show ?thesis using assms(1,2) by simp
qed

text \<open>
  C1 states that a successful \<^verbatim>\<open>EnsureBits(n)\<close>, \<open>0 < n \<le> 16\<close>, leaves at least \<open>n\<close>
  valid bits in the register, having pulled as many bytes as needed. The source pulls one
  byte at most. Over the buffer \<open>[0xAB, 0xCD]\<close>, \<^verbatim>\<open>EnsureBits(16)\<close> returns true with 8
  bits resident and the second byte still in the buffer, and \<^verbatim>\<open>ReadBits(16)\<close> returns
  \<open>0xAB\<close> and leaves a bit count of \<open>-8\<close>.
\<close>

theorem EnsureBits_single_pull:
  "EnsureBits (CreateBitStream [0xAB, 0xCD]) 16 =
     Inr (True, \<lparr>bdata = [0xAB, 0xCD], dataPosition = 1, current = 0xAB, bitCount = 8\<rparr>)
   \<and> ReadBits (CreateBitStream [0xAB, 0xCD]) 16 =
     Inr (0xAB, \<lparr>bdata = [0xAB, 0xCD], dataPosition = 1, current = 0, bitCount = - 8\<rparr>)"
  by (simp add: ReadBits_def EnsureBits_def CreateBitStream_def WasteBits_def len_def)

text \<open>
  Where the bit count is not negative, a successful \<^verbatim>\<open>PeekByte()\<close> consumes nothing, and
  the \<^verbatim>\<open>ReadBits(8)\<close> after it returns the value peeked and consumes 8 bits.
\<close>

lemma Peek_then_Read_nonneg:
  assumes bc: "0 \<le> sint (bitCount v)"
    and pk: "PeekByte v = Inr (r, v1)" and ok: "EnsureBits v 8 = Inr (True, v0)"
  shows "ReadBits v1 8 = Inr (r, WasteBits v1 8) \<and> consumed v1 = consumed v
     \<and> consumed (WasteBits v1 8) = consumed v + 8"
proof -
  from pk ok have v1: "v1 = v0" and r: "r = current v0 AND 0xff"
    by (auto simp add: PeekByte_def)
  have ge: "8 \<le> sint (bitCount v0)" and same: "consumed v0 = consumed v"
  proof -
    show "8 \<le> sint (bitCount v0)"
    proof (cases "8 \<le> sint (bitCount v)")
      case True
      with ok show ?thesis by (simp add: EnsureBits_def)
    next
      case False
      with ok have "bitCount v0 = bitCount v + 8"
        by (auto simp add: EnsureBits_def Let_def split: if_splits)
      moreover have "sint (bitCount v + 8) = sint (bitCount v) + sint (8 :: 64 word)"
        using False bc by (intro sint_plus) simp_all
      ultimately show ?thesis using bc by simp
    qed
    show "consumed v0 = consumed v"
    proof (cases "8 \<le> sint (bitCount v)")
      case True
      with ok show ?thesis by (simp add: EnsureBits_def)
    next
      case False
      with ok have f: "bitCount v0 = bitCount v + 8" "dataPosition v0 = dataPosition v + 1"
        and dp: "sint (dataPosition v) < sint (len (bdata v))" "0 \<le> sint (dataPosition v)"
        by (auto simp add: EnsureBits_def Let_def split: if_splits)
      have "sint (len (bdata v)) < 2 ^ 63" using sint_lt [of "len (bdata v)"] by simp
      then have "sint (dataPosition v + 1) = sint (dataPosition v) + sint (1 :: 64 word)"
        using dp by (intro sint_plus) simp_all
      moreover have "sint (bitCount v + 8) = sint (bitCount v) + sint (8 :: 64 word)"
        using False bc by (intro sint_plus) simp_all
      ultimately show ?thesis using f by (simp add: consumed_def)
    qed
  qed
  have e: "EnsureBits v0 8 = Inr (True, v0)" using ge by (simp add: EnsureBits_def)
  have "sint (bitCount v0 - 8) = sint (bitCount v0) - sint (8 :: 64 word)"
    using ge sint_lt [of "bitCount v0"] by (intro sint_minus) simp_all
  then have "consumed (WasteBits v0 8) = consumed v0 + 8"
    by (simp add: consumed_def WasteBits_def)
  then show ?thesis using e r v1 same by (simp add: ReadBits_def)
qed

text \<open>
  C7 states that for every state in which \<^verbatim>\<open>PeekByte()\<close> succeeds with value \<open>r\<close>, the
  \<^verbatim>\<open>ReadBits(8)\<close> that follows returns \<open>r\<close>. After \<^verbatim>\<open>ReadBits(16)\<close> over the buffer
  \<open>[1, 2, 3]\<close> has pulled a single byte and left a bit count of \<open>-8\<close>, \<^verbatim>\<open>PeekByte()\<close>
  pulls the second byte, shifts it out of the register and returns 0 with no bit resident;
  \<^verbatim>\<open>ReadBits(8)\<close> then pulls the third byte and returns 3.
\<close>

theorem PeekByte_ReadBits_after_short_pull:
  "ReadBits (CreateBitStream [1, 2, 3]) 16 =
     Inr (1, \<lparr>bdata = [1, 2, 3], dataPosition = 1, current = 0, bitCount = - 8\<rparr>)
   \<and> PeekByte \<lparr>bdata = [1, 2, 3], dataPosition = 1, current = 0, bitCount = - 8\<rparr> =
     Inr (0, \<lparr>bdata = [1, 2, 3], dataPosition = 2, current = 0, bitCount = 0\<rparr>)
   \<and> ReadBits \<lparr>bdata = [1, 2, 3], dataPosition = 2, current = 0, bitCount = 0\<rparr> 8 =
     Inr (3, \<lparr>bdata = [1, 2, 3], dataPosition = 3, current = 0, bitCount = 0\<rparr>)"
  by (simp add: ReadBits_def PeekByte_def EnsureBits_def CreateBitStream_def WasteBits_def len_def)

section \<open>The round trip of the bounded bit push\<close>

lemma take_bit_small: "unat (b :: byte) < 2 ^ n \<Longrightarrow> take_bit n b = b"
proof -
  assume "unat b < 2 ^ n"
  then have "unat (take_bit n b) = unat b"
    by (simp add: unsigned_take_bit_eq take_bit_nat_eq_self)
  then show ?thesis by (simp add: word_unat_eq_iff)
qed

lemma ReadBits_empty:
  "0 < sint bits \<Longrightarrow> sint bits \<le> 16 \<Longrightarrow>
     ReadBits (CreateBitStream []) bits = Inr (- 1, CreateBitStream [])"
  by (simp add: ReadBits_def EnsureBits_def CreateBitStream_def len_def)

lemma ucast_and_ff: "(ucast (b :: byte) :: 64 word) AND 0xff = ucast b"
proof -
  have "(ucast b :: 64 word) AND mask 8 = ucast b"
    by (rule bit_word_eqI) (auto simp add: bit_simps dest: bit_imp_le_length)
  moreover have "(mask 8 :: 64 word) = 0xff" by (simp add: mask_eq_exp_minus_1)
  ultimately show ?thesis by simp
qed

lemma ReadBits_one_byte:
  "ReadBits (CreateBitStream [b]) 8 =
     Inr (ucast b, \<lparr>bdata = [b], dataPosition = 1, current = 0, bitCount = 0\<rparr>)"
proof -
  have "drop_bit 8 (ucast b :: 64 word) = 0"
    by (rule bit_word_eqI) (auto simp add: bit_simps dest: bit_imp_le_length)
  then have "signed_drop_bit 8 (ucast b :: 64 word) = 0"
    by (intro bit_word_eqI) (auto simp add: bit_simps dest: bit_imp_le_length)
  then show ?thesis
    by (simp add: ReadBits_def EnsureBits_def CreateBitStream_def len_def WasteBits_def ucast_and_ff)
qed

lemma PushBits_fresh:
  assumes "1 \<le> sint bits" and "sint bits \<le> 8" and "unat b < 2 ^ nat (sint bits)"
  shows "PushBits CreateStreamWriter b bits =
     Inr (if bits = 8 then \<lparr>wdata = [b], bitOffset = 0, bitCache = 0\<rparr>
          else \<lparr>wdata = [], bitOffset = bits, bitCache = b\<rparr>)"
proof -
  define n where "n = nat (sint bits)"
  have n: "1 \<le> n" "n \<le> 8" using assms(1,2) by (simp_all add: n_def)
  have "bits = word_of_int (sint bits)" by simp
  also have "sint bits = int n" using assms(1) by (simp add: n_def)
  finally have bits: "bits = of_nat n" by simp
  have eight: "bits = 8 \<longleftrightarrow> n = 8"
  proof
    assume "bits = 8"
    then have "unat (of_nat n :: 64 word) = unat (8 :: 64 word)" using bits by simp
    moreover have "unat (of_nat n :: 64 word) = n" using n by (intro small_of_nat(2)) simp
    ultimately show "n = 8" by simp
  next
    assume "n = 8"
    then show "bits = 8" using bits by simp
  qed
  have tb: "take_bit n b = b" using assms(3) unfolding n_def [symmetric] by (rule take_bit_small)
  have "bitOffset CreateStreamWriter = of_nat 0" by (simp add: CreateStreamWriter_def)
  from PushBits_loop_spec [OF this, of n b] n tb
  have "PushBits_loop CreateStreamWriter b n =
     Inr (if n = 8 then \<lparr>wdata = [b], bitOffset = 0, bitCache = 0\<rparr>
          else \<lparr>wdata = [], bitOffset = of_nat n, bitCache = b\<rparr>)"
    by (auto simp add: CreateStreamWriter_def)
  moreover have "PushBits CreateStreamWriter b bits = PushBits_loop CreateStreamWriter b n"
    by (simp add: PushBits_def n_def)
  ultimately show ?thesis using eight bits by simp
qed

text \<open>
  C2, as stated: for every bit count in \<open>[1,8]\<close> and every \<open>v < 2^bits\<close>, pushing \<open>v\<close>
  with \<^verbatim>\<open>PushBits\<close> into a fresh writer and reading \<^verbatim>\<open>bits\<close> bits from a \<^verbatim>\<open>BitStream\<close>
  over \<^verbatim>\<open>GetBytes()\<close> returns \<open>v\<close>. With 3 bits and \<open>v = 5\<close> the three bits stay in the
  writer's cache, \<^verbatim>\<open>GetBytes()\<close> is empty, and \<^verbatim>\<open>ReadBits(3)\<close> returns \<open>-1\<close>.
\<close>

theorem PushBits_ReadBits_counterexample:
  "1 \<le> sint (3 :: go_int) \<and> sint (3 :: go_int) \<le> 8 \<and> unat (5 :: byte) < 2 ^ nat (sint (3 :: go_int))
   \<and> PushBits CreateStreamWriter 5 3 = Inr \<lparr>wdata = [], bitOffset = 3, bitCache = 5\<rparr>
   \<and> GetBytes \<lparr>wdata = [], bitOffset = 3, bitCache = 5\<rparr> = []
   \<and> ReadBits (CreateBitStream []) 3 = Inr (- 1, CreateBitStream [])
   \<and> bits_roundtrip 5 3 \<noteq> Inr 5"
  using PushBits_fresh [of 3 5] ReadBits_empty [of 3]
  by (simp add: bits_roundtrip_def GetBytes_def)

text \<open>
  C2, amended: for every bit count in \<open>[1,8]\<close> and every \<open>v < 2^bits\<close>, the push does not
  panic. With 8 bits the writer is left with the single byte \<open>v\<close> in its buffer and both
  scratch fields at 0, \<^verbatim>\<open>GetBytes()\<close> is that byte, and the round trip returns \<open>v\<close>. With
  fewer than 8 bits the bits stay in the writer's pending byte: the buffer is empty, the
  cache holds \<open>v\<close> and the bit offset is \<^verbatim>\<open>bits\<close>; \<^verbatim>\<open>GetBytes()\<close> is empty and the round trip
  returns the end-of-data value \<open>-1\<close>.
\<close>

theorem PushBits_ReadBits_roundtrip:
  assumes "1 \<le> sint bits" and "sint bits \<le> 8" and "unat b < 2 ^ nat (sint bits)"
  shows "PushBits CreateStreamWriter b bits =
       Inr (if bits = 8 then \<lparr>wdata = [b], bitOffset = 0, bitCache = 0\<rparr>
            else \<lparr>wdata = [], bitOffset = bits, bitCache = b\<rparr>)
     \<and> (case PushBits CreateStreamWriter b bits of
            Inl e \<Rightarrow> False
          | Inr w \<Rightarrow> GetBytes w = (if bits = 8 then [b] else []))
     \<and> bits_roundtrip b bits = Inr (if bits = 8 then ucast b else - 1)"
  using PushBits_fresh [OF assms] ReadBits_empty [of bits] ReadBits_one_byte [of b] assms(1,2)
  by (simp add: bits_roundtrip_def GetBytes_def)

theorem PushBits_ReadBits_roundtrip_witness:
  "1 \<le> sint (8 :: go_int) \<and> sint (8 :: go_int) \<le> 8
   \<and> unat (0xA5 :: byte) < 2 ^ nat (sint (8 :: go_int))
   \<and> PushBits CreateStreamWriter 0xA5 8 = Inr \<lparr>wdata = [0xA5], bitOffset = 0, bitCache = 0\<rparr>
   \<and> bits_roundtrip 0xA5 8 = Inr 0xA5
   \<and> 1 \<le> sint (3 :: go_int) \<and> sint (3 :: go_int) \<le> 8
   \<and> unat (5 :: byte) < 2 ^ nat (sint (3 :: go_int))
   \<and> PushBits CreateStreamWriter 5 3 = Inr \<lparr>wdata = [], bitOffset = 3, bitCache = 5\<rparr>
   \<and> bits_roundtrip 5 3 = Inr (- 1)"
  using PushBits_ReadBits_roundtrip [of 8 "0xA5"] PushBits_ReadBits_roundtrip [of 3 5]
  by simp

end
